theory Spec2Isabelle
  imports Complex_Main "HOL-Library.Multiset"
begin

section \<open>Python primitives used by the generators\<close>

text \<open>
  The three generator scripts (\<^verbatim>\<open>data_gen.py\<close>, \<^verbatim>\<open>simple_data_gen_int_int.py\<close>,
  \<^verbatim>\<open>random_data_gen_int_int.py\<close>) use Python's unbounded integers (HOL \<open>int\<close>), the
  process-wide generator of module \<^verbatim>\<open>random\<close>, and the conversions \<^verbatim>\<open>int()\<close> and
  \<^verbatim>\<open>float()\<close> on the command line.

  Exceptions are values. Only the two exception classes that the scripts catch on the
  command line, and that the primitives below can raise, occur.
\<close>

datatype py_error = IndexError | ValueError

subsection \<open>The random source\<close>

text \<open>
  The global generator is an infinite sequence of raw draws \<open>rnd 0, rnd 1, \<dots>\<close>; the
  state threaded through the program is the position \<open>p\<close> of the next draw. Each call of
  \<^verbatim>\<open>randint\<close>, \<^verbatim>\<open>choice\<close> and each step of \<^verbatim>\<open>shuffle\<close> reads one raw draw and
  reduces it into the requested range, so every value of the range can be returned and no
  other.

  \<^verbatim>\<open>random.randint(a, b)\<close> returns an integer of the closed range \<open>[a, b]\<close> and raises
  \<^verbatim>\<open>ValueError\<close> when the range is empty.
\<close>

type_synonym rng = "nat \<Rightarrow> nat"

definition randint :: "rng \<Rightarrow> int \<Rightarrow> int \<Rightarrow> nat \<Rightarrow> py_error + (int \<times> nat)" where
  "randint rnd a b p =
     (if b < a then Inl ValueError
      else Inr (a + int (rnd p mod nat (b - a + 1)), Suc p))"

text \<open>\<^verbatim>\<open>random.choice(seq)\<close> is \<^verbatim>\<open>seq[randbelow(len(seq))]\<close>; it raises \<^verbatim>\<open>IndexError\<close> on
  an empty sequence.\<close>

definition choice :: "rng \<Rightarrow> 'a list \<Rightarrow> nat \<Rightarrow> py_error + ('a \<times> nat)" where
  "choice rnd xs p =
     (if xs = [] then Inl IndexError
      else Inr (xs ! (rnd p mod length xs), Suc p))"

text \<open>
  \<^verbatim>\<open>random.shuffle(x)\<close> is the Fisher-Yates loop
  \<^verbatim>\<open>for i in reversed(range(1, len(x))): j = randbelow(i + 1); x[i], x[j] = x[j], x[i]\<close>.
\<close>

fun shuffle_loop :: "rng \<Rightarrow> nat list \<Rightarrow> 'a list \<Rightarrow> nat \<Rightarrow> 'a list \<times> nat" where
  "shuffle_loop rnd [] x p = (x, p)"
| "shuffle_loop rnd (i # is) x p =
     (let j = rnd p mod (i + 1)
      in shuffle_loop rnd is (x[i := x ! j, j := x ! i]) (Suc p))"

definition shuffle :: "rng \<Rightarrow> 'a list \<Rightarrow> nat \<Rightarrow> 'a list \<times> nat" where
  "shuffle rnd x p = shuffle_loop rnd (rev [1..<length x]) x p"

subsection \<open>Numbers and slices\<close>

text \<open>
  A Python \<^verbatim>\<open>float\<close> is modelled by the exact rational it denotes, with the two
  infinities and NaN beside it; the rounding of binary64 arithmetic is not modelled.
  \<^verbatim>\<open>int(x)\<close> on a finite float truncates towards zero.
\<close>

datatype py_float = Finite rat | Infinity bool | NaN

definition trunc :: "rat \<Rightarrow> int" where
  "trunc q = (if 0 \<le> q then \<lfloor>q\<rfloor> else \<lceil>q\<rceil>)"

text \<open>The slice \<^verbatim>\<open>xs[:n]\<close>; a negative \<open>n\<close> counts from the end.\<close>

definition slice_to :: "'a list \<Rightarrow> int \<Rightarrow> 'a list" where
  "slice_to xs n = (if 0 \<le> n then take (nat n) xs else take (length xs - nat (- n)) xs)"

section \<open>\<^verbatim>\<open>data_gen.py\<close>: the key pool of one table\<close>

text \<open>
  The loop \<^verbatim>\<open>while len(unique_key_set) < num_unique_keys: unique_key_set.add(randint(0, key_range_max))\<close>.
  The set is kept as a list without repetitions, in insertion order;
  \<^verbatim>\<open>list(unique_key_set)\<close> is that list (Python leaves the iteration order of a set
  unspecified; nothing proved below depends on it). The loop has no bound on the number
  of draws: on a random source that never produces enough distinct values it does not
  return, which is the result \<open>None\<close>.
\<close>

partial_function (option) fill_unique_key_set ::
  "rng \<Rightarrow> int \<Rightarrow> int \<Rightarrow> int list \<Rightarrow> nat \<Rightarrow> (py_error + (int list \<times> nat)) option" where
  "fill_unique_key_set rnd num_unique_keys key_range_max unique_key_set p =
     (if int (length unique_key_set) < num_unique_keys then
        (case randint rnd 0 key_range_max p of
           Inl e \<Rightarrow> Some (Inl e)
         | Inr (k, p') \<Rightarrow>
             fill_unique_key_set rnd num_unique_keys key_range_max
               (if k \<in> set unique_key_set then unique_key_set else unique_key_set @ [k]) p')
      else Some (Inr (unique_key_set, p)))"

declare fill_unique_key_set.simps [code]

text \<open>\<^verbatim>\<open>[random.choice(unique_key_list) for _ in range(num_duplicate_keys)]\<close>\<close>

fun draw_duplicates :: "rng \<Rightarrow> int list \<Rightarrow> nat \<Rightarrow> nat \<Rightarrow> py_error + (int list \<times> nat)" where
  "draw_duplicates rnd unique_key_list 0 p = Inr ([], p)"
| "draw_duplicates rnd unique_key_list (Suc n) p =
     (case choice rnd unique_key_list p of
        Inl e \<Rightarrow> Inl e
      | Inr (k, p') \<Rightarrow>
          (case draw_duplicates rnd unique_key_list n p' of
             Inl e \<Rightarrow> Inl e
           | Inr (ks, p'') \<Rightarrow> Inr (k # ks, p'')))"

text \<open>
  Lines 59-93 of \<^verbatim>\<open>data_gen.py\<close>, which the script repeats word for word for table B
  (lines 96-127) with \<^verbatim>\<open>num_rows_b\<close> in place of \<^verbatim>\<open>num_rows_a\<close>. The block ends in one
  of three ways: it prints \<^verbatim>\<open>No rows to generate.\<close> and returns from \<^verbatim>\<open>generate_data\<close>;
  an exception escapes; or it reaches the slice with the lists below.
\<close>

record key_pool =
  unique_key_list :: "int list"
  duplicates :: "int list"
  unshuffled :: "int list"
  final_key_pool :: "int list"
  keys_for :: "int list"

datatype pool_outcome = NoRows nat | Raised py_error | Pool key_pool nat

definition build_key_pool :: "rng \<Rightarrow> int \<Rightarrow> rat \<Rightarrow> nat \<Rightarrow> pool_outcome option" where
  "build_key_pool rnd total_keys_required uniqueness_percent p =
     (let num_unique_keys = trunc (of_int total_keys_required * uniqueness_percent);
          num_duplicate_keys = total_keys_required - num_unique_keys;
          key_range_max = total_keys_required * 2
      in case fill_unique_key_set rnd num_unique_keys key_range_max [] p of
           None \<Rightarrow> None
         | Some (Inl e) \<Rightarrow> Some (Raised e)
         | Some (Inr (key_set, p1)) \<Rightarrow>
             (if key_set = [] \<and> \<not> total_keys_required > 0 then Some (NoRows p1)
              else
                (case (if key_set = [] then
                         (case randint rnd 0 key_range_max p1 of
                            Inl e \<Rightarrow> Inl e
                          | Inr (k, p2) \<Rightarrow> Inr ([k], p2))
                       else Inr (key_set, p1)) of
                   Inl e \<Rightarrow> Some (Raised e)
                 | Inr (ukl, p2) \<Rightarrow>
                     (case draw_duplicates rnd ukl (nat num_duplicate_keys) p2 of
                        Inl e \<Rightarrow> Some (Raised e)
                      | Inr (dups, p3) \<Rightarrow>
                          (case shuffle rnd (ukl @ dups) p3 of
                             (pool, p4) \<Rightarrow>
                               Some (Pool \<lparr>unique_key_list = ukl, duplicates = dups,
                                           unshuffled = ukl @ dups, final_key_pool = pool,
                                           keys_for = slice_to pool total_keys_required\<rparr> p4))))))"

subsection \<open>The command line\<close>

text \<open>
  \<^verbatim>\<open>int(s)\<close> and \<^verbatim>\<open>float(s)\<close> on ASCII text: surrounding white space is stripped, one
  sign is allowed, digits may be grouped by single underscores. \<^verbatim>\<open>float\<close> also accepts
  a fraction, an exponent, and the words \<^verbatim>\<open>inf\<close>, \<^verbatim>\<open>infinity\<close> and \<^verbatim>\<open>nan\<close> in any case.
  Both raise \<^verbatim>\<open>ValueError\<close> on anything else.
\<close>

definition is_space :: "char \<Rightarrow> bool" where
  "is_space c = (c \<in> set [CHR '' '', CHR 0x09, CHR 0x0A, CHR 0x0B, CHR 0x0C, CHR 0x0D])"

definition strip :: "string \<Rightarrow> string" where
  "strip s = rev (dropWhile is_space (rev (dropWhile is_space s)))"

definition is_digit :: "char \<Rightarrow> bool" where
  "is_digit c = (48 \<le> (of_char c :: nat) \<and> (of_char c :: nat) \<le> 57)"

definition digit :: "char \<Rightarrow> nat" where
  "digit c = of_char c - 48"

fun digitpart :: "string \<Rightarrow> nat list option" where
  "digitpart [] = None"
| "digitpart [c] = (if is_digit c then Some [digit c] else None)"
| "digitpart (c # d # cs) =
     (if is_digit c then
        map_option (Cons (digit c)) (if d = CHR ''_'' then digitpart cs else digitpart (d # cs))
      else None)"

definition decimal :: "nat list \<Rightarrow> nat" where
  "decimal ds = foldl (\<lambda>a d. 10 * a + d) 0 ds"

definition split_sign :: "string \<Rightarrow> bool \<times> string" where
  "split_sign s =
     (case s of
        [] \<Rightarrow> (False, [])
      | c # cs \<Rightarrow>
          if c = CHR ''-'' then (True, cs)
          else if c = CHR ''+'' then (False, cs)
          else (False, s))"

definition py_int :: "string \<Rightarrow> py_error + int" where
  "py_int s =
     (case split_sign (strip s) of
        (neg, body) \<Rightarrow>
          (case digitpart body of
             None \<Rightarrow> Inl ValueError
           | Some ds \<Rightarrow> Inr (if neg then - int (decimal ds) else int (decimal ds))))"

definition lower :: "char \<Rightarrow> char" where
  "lower c =
     (if 65 \<le> (of_char c :: nat) \<and> (of_char c :: nat) \<le> 90
      then char_of ((of_char c :: nat) + 32) else c)"

definition split_at :: "(char \<Rightarrow> bool) \<Rightarrow> string \<Rightarrow> string \<times> string option" where
  "split_at P s =
     (case dropWhile (\<lambda>c. \<not> P c) s of
        [] \<Rightarrow> (s, None)
      | _ # rest \<Rightarrow> (takeWhile (\<lambda>c. \<not> P c) s, Some rest))"

text \<open>An optional group of digits: the empty text stands for no digits.\<close>

definition digits_opt :: "string \<Rightarrow> nat list option" where
  "digits_opt s = (if s = [] then Some [] else digitpart s)"

definition mantissa :: "string \<Rightarrow> rat option" where
  "mantissa s =
     (case split_at (\<lambda>c. c = CHR ''.'') s of
        (ip, None) \<Rightarrow> map_option (\<lambda>ds. of_nat (decimal ds)) (digitpart ip)
      | (ip, Some fp) \<Rightarrow>
          (if ip = [] \<and> fp = [] then None
           else
             (case (digits_opt ip, digits_opt fp) of
                (Some ds, Some fs) \<Rightarrow>
                  Some (of_nat (decimal ds) + of_nat (decimal fs) / 10 ^ length fs)
              | _ \<Rightarrow> None)))"

definition exponent :: "string \<Rightarrow> int option" where
  "exponent s =
     (case split_sign s of
        (neg, body) \<Rightarrow>
          map_option (\<lambda>ds. if neg then - int (decimal ds) else int (decimal ds))
            (digitpart body))"

definition scale10 :: "rat \<Rightarrow> int \<Rightarrow> rat" where
  "scale10 q e = (if 0 \<le> e then q * 10 ^ nat e else q / 10 ^ nat (- e))"

definition floatnumber :: "string \<Rightarrow> rat option" where
  "floatnumber s =
     (case split_at (\<lambda>c. c = CHR ''e'' \<or> c = CHR ''E'') s of
        (m, None) \<Rightarrow> mantissa m
      | (m, Some x) \<Rightarrow>
          (case (mantissa m, exponent x) of
             (Some q, Some e) \<Rightarrow> Some (scale10 q e)
           | _ \<Rightarrow> None))"

definition py_float :: "string \<Rightarrow> py_error + py_float" where
  "py_float s =
     (case split_sign (strip s) of
        (neg, body) \<Rightarrow>
          (if map lower body = ''inf'' \<or> map lower body = ''infinity'' then Inr (Infinity neg)
           else if map lower body = ''nan'' then Inr NaN
           else
             (case floatnumber body of
                None \<Rightarrow> Inl ValueError
              | Some q \<Rightarrow> Inr (Finite (if neg then - q else q)))))"

text \<open>\<^verbatim>\<open>sys.argv[i]\<close> raises \<^verbatim>\<open>IndexError\<close> when the argument is missing.\<close>

definition argv_at :: "string list \<Rightarrow> nat \<Rightarrow> py_error + string" where
  "argv_at argv i = (if i < length argv then Inr (argv ! i) else Inl IndexError)"

definition int_arg :: "string list \<Rightarrow> nat \<Rightarrow> py_error + int" where
  "int_arg argv i = (case argv_at argv i of Inl e \<Rightarrow> Inl e | Inr s \<Rightarrow> py_int s)"

definition float_arg :: "string list \<Rightarrow> nat \<Rightarrow> py_error + py_float" where
  "float_arg argv i = (case argv_at argv i of Inl e \<Rightarrow> Inl e | Inr s \<Rightarrow> py_float s)"

text \<open>
  The \<^verbatim>\<open>try\<close> block of \<^verbatim>\<open>data_gen.py\<close> (lines 42-57): the three conversions in order, then
  the test \<^verbatim>\<open>not 0.0 <= uniqueness_percent <= 1.0\<close>, which is true of NaN and of both
  infinities. The first exception ends the block.
\<close>

definition parse_args :: "string list \<Rightarrow> py_error + (int \<times> int \<times> rat)" where
  "parse_args argv =
     (case int_arg argv 1 of
        Inl e \<Rightarrow> Inl e
      | Inr num_rows_a \<Rightarrow>
          (case int_arg argv 2 of
             Inl e \<Rightarrow> Inl e
           | Inr num_rows_b \<Rightarrow>
               (case float_arg argv 3 of
                  Inl e \<Rightarrow> Inl e
                | Inr (Finite uniqueness_percent) \<Rightarrow>
                    if 0 \<le> uniqueness_percent \<and> uniqueness_percent \<le> 1
                    then Inr (num_rows_a, num_rows_b, uniqueness_percent)
                    else Inl ValueError
                | Inr _ \<Rightarrow> Inl ValueError)))"

section \<open>\<^verbatim>\<open>data_gen.py\<close>: writers and \<^verbatim>\<open>generate_data\<close>\<close>

text \<open>
  A file is the list of its rows, in the order written: \<open>(k, v)\<close> for the line
  \<^verbatim>\<open>k,v\<close> of \<^verbatim>\<open>A.txt\<close> and \<open>k\<close> for the line \<^verbatim>\<open>k\<close> of \<^verbatim>\<open>B.txt\<close>. A writer ends in one
  of three ways: the loop finishes; \<^verbatim>\<open>open\<close> raises \<^verbatim>\<open>IOError\<close>, which the writer catches
  before anything is created or truncated; or another exception escapes the writer after
  some rows. Whether \<^verbatim>\<open>open\<close> succeeds is an input of the model; a write is taken to
  succeed once the file is open.
\<close>

datatype 'r writer = Written "'r list" | OpenFailed | Died py_error "'r list"

fun rows_written :: "'r writer \<Rightarrow> 'r list" where
  "rows_written (Written rows) = rows"
| "rows_written OpenFailed = []"
| "rows_written (Died e rows) = rows"

fun file_a_loop ::
  "rng \<Rightarrow> int list \<Rightarrow> nat list \<Rightarrow> (int \<times> int) list \<Rightarrow> nat \<Rightarrow> (int \<times> int) writer \<times> nat" where
  "file_a_loop rnd keys [] rows p = (Written rows, p)"
| "file_a_loop rnd keys (i # is) rows p =
     (if i < length keys then
        (case randint rnd 1 100 p of
           Inl e \<Rightarrow> (Died e rows, p)
         | Inr (v, p') \<Rightarrow> file_a_loop rnd keys is (rows @ [(keys ! i, v)]) p')
      else (Died IndexError rows, p))"

definition generate_file_a ::
  "bool \<Rightarrow> rng \<Rightarrow> int \<Rightarrow> int list \<Rightarrow> nat \<Rightarrow> (int \<times> int) writer \<times> nat" where
  "generate_file_a can_open rnd num_rows keys p =
     (if can_open then file_a_loop rnd keys [0..<nat num_rows] [] p else (OpenFailed, p))"

fun file_b_loop :: "int list \<Rightarrow> nat list \<Rightarrow> int list \<Rightarrow> int writer" where
  "file_b_loop keys [] rows = Written rows"
| "file_b_loop keys (i # is) rows =
     (if i < length keys then file_b_loop keys is (rows @ [keys ! i])
      else Died IndexError rows)"

definition generate_file_b :: "bool \<Rightarrow> int \<Rightarrow> int list \<Rightarrow> int writer" where
  "generate_file_b can_open num_rows keys =
     (if can_open then file_b_loop keys [0..<nat num_rows] [] else OpenFailed)"

text \<open>
  What a run needs from outside: the command line, the random source, and whether
  \<^verbatim>\<open>A.txt\<close> and \<^verbatim>\<open>B.txt\<close> can be opened for writing.
\<close>

record env =
  sys_argv :: "string list"
  random :: rng
  can_open_a :: bool
  can_open_b :: bool

text \<open>
  Lines 41-127 of \<^verbatim>\<open>generate_data\<close>: either the function stops before any thread exists
  (invalid arguments, \<^verbatim>\<open>No rows to generate.\<close>, or an exception that nothing catches),
  or it reaches the creation of the threads with the row counts and the two key lists
  that are handed to the writers.
\<close>

datatype report = InvalidArguments py_error | NoRowsToGenerate | Uncaught py_error
  | AllTasksCompleted

datatype prepared = Stopped report nat | Ready int "int list" int "int list" nat

definition prepare :: "env \<Rightarrow> prepared option" where
  "prepare e =
     (case parse_args (sys_argv e) of
        Inl err \<Rightarrow> Some (Stopped (InvalidArguments err) 0)
      | Inr (num_rows_a, num_rows_b, uniqueness_percent) \<Rightarrow>
          (case build_key_pool (random e) num_rows_a uniqueness_percent 0 of
             None \<Rightarrow> None
           | Some (NoRows p) \<Rightarrow> Some (Stopped NoRowsToGenerate p)
           | Some (Raised err) \<Rightarrow> Some (Stopped (Uncaught err) 0)
           | Some (Pool pool_a p1) \<Rightarrow>
               (case build_key_pool (random e) num_rows_b uniqueness_percent p1 of
                  None \<Rightarrow> None
                | Some (NoRows p) \<Rightarrow> Some (Stopped NoRowsToGenerate p)
                | Some (Raised err) \<Rightarrow> Some (Stopped (Uncaught err) p1)
                | Some (Pool pool_b p2) \<Rightarrow>
                    Some (Ready num_rows_a (keys_for pool_a) num_rows_b (keys_for pool_b) p2))))"

text \<open>
  The outcome of a run. \<open>thread_a\<close> and \<open>thread_b\<close> are \<open>None\<close> when the thread was never
  started, so that the file was neither created nor truncated; \<open>draws\<close> counts the
  random numbers consumed. The two threads share no data, and only thread A draws random
  numbers, so running A before B gives every result an interleaving can give.
\<close>

record outcome =
  report :: report
  thread_a :: "(int \<times> int) writer option"
  thread_b :: "int writer option"
  draws :: nat

definition generate_data :: "env \<Rightarrow> outcome option" where
  "generate_data e =
     (case prepare e of
        None \<Rightarrow> None
      | Some (Stopped r p) \<Rightarrow>
          Some \<lparr>report = r, thread_a = None, thread_b = None, draws = p\<rparr>
      | Some (Ready num_rows_a keys_for_a num_rows_b keys_for_b p) \<Rightarrow>
          (case generate_file_a (can_open_a e) (random e) num_rows_a keys_for_a p of
             (ta, p') \<Rightarrow>
               Some \<lparr>report = AllTasksCompleted,
                     thread_a = Some ta,
                     thread_b = Some (generate_file_b (can_open_b e) num_rows_b keys_for_b),
                     draws = p'\<rparr>))"

text \<open>The rows of \<^verbatim>\<open>A.txt\<close> and \<^verbatim>\<open>B.txt\<close> after the run, when the run opened the file.\<close>

definition a_txt :: "outcome \<Rightarrow> (int \<times> int) list option" where
  "a_txt r =
     (case thread_a r of
        None \<Rightarrow> None
      | Some OpenFailed \<Rightarrow> None
      | Some w \<Rightarrow> Some (rows_written w))"

definition b_txt :: "outcome \<Rightarrow> int list option" where
  "b_txt r =
     (case thread_b r of
        None \<Rightarrow> None
      | Some OpenFailed \<Rightarrow> None
      | Some w \<Rightarrow> Some (rows_written w))"

section \<open>The two simplified generators\<close>

text \<open>
  \<^verbatim>\<open>simple_data_gen_int_int.py\<close> and \<^verbatim>\<open>random_data_gen_int_int.py\<close> read each row count in
  a \<^verbatim>\<open>try\<close> block of its own, whose handler for \<^verbatim>\<open>IndexError\<close> and \<^verbatim>\<open>ValueError\<close> sets
  the count to 10000.
\<close>

definition row_count_arg :: "string list \<Rightarrow> nat \<Rightarrow> int" where
  "row_count_arg argv i = (case int_arg argv i of Inl e \<Rightarrow> 10000 | Inr n \<Rightarrow> n)"

text \<open>
  Both scripts write \<^verbatim>\<open>A.txt\<close> and then \<^verbatim>\<open>B.txt\<close> in the main thread. An \<^verbatim>\<open>IOError\<close> on
  \<^verbatim>\<open>A.txt\<close> is caught and ends the script, and so does any exception that escapes: in
  both cases \<^verbatim>\<open>B.txt\<close> is never opened.
\<close>

record script_outcome =
  file_a :: "(int \<times> int) writer option"
  file_b :: "int writer option"

subsection \<open>\<^verbatim>\<open>simple_data_gen_int_int.py\<close>\<close>

text \<open>\<^verbatim>\<open>[random.randint(a, b) for _ in range(n)]\<close>\<close>

fun randints :: "rng \<Rightarrow> int \<Rightarrow> int \<Rightarrow> nat \<Rightarrow> nat \<Rightarrow> py_error + (int list \<times> nat)" where
  "randints rnd a b 0 p = Inr ([], p)"
| "randints rnd a b (Suc n) p =
     (case randint rnd a b p of
        Inl e \<Rightarrow> Inl e
      | Inr (k, p') \<Rightarrow>
          (case randints rnd a b n p' of
             Inl e \<Rightarrow> Inl e
           | Inr (ks, p'') \<Rightarrow> Inr (k # ks, p'')))"

text \<open>Lines 29-35: the pool shared by both tables.\<close>

definition simple_key_pool :: "env \<Rightarrow> py_error + (int list \<times> nat)" where
  "simple_key_pool e =
     (let num_rows_a = row_count_arg (sys_argv e) 1;
          num_rows_b = row_count_arg (sys_argv e) 2;
          key_pool_size = max 1 ((num_rows_a + num_rows_b) div 20);
          key_range_max = key_pool_size * 5
      in case randints (random e) 0 key_range_max (nat key_pool_size) 0 of
           Inl err \<Rightarrow> Inl err
         | Inr (key_pool, p) \<Rightarrow> Inr (if key_pool = [] then [0] else key_pool, p))"

fun simple_a_loop ::
  "rng \<Rightarrow> int list \<Rightarrow> nat \<Rightarrow> (int \<times> int) list \<Rightarrow> nat \<Rightarrow> (int \<times> int) writer \<times> nat" where
  "simple_a_loop rnd key_pool 0 rows p = (Written rows, p)"
| "simple_a_loop rnd key_pool (Suc n) rows p =
     (case choice rnd key_pool p of
        Inl e \<Rightarrow> (Died e rows, p)
      | Inr (k, p1) \<Rightarrow>
          (case randint rnd 1 100 p1 of
             Inl e \<Rightarrow> (Died e rows, p1)
           | Inr (v, p2) \<Rightarrow> simple_a_loop rnd key_pool n (rows @ [(k, v)]) p2))"

fun simple_b_loop :: "rng \<Rightarrow> int list \<Rightarrow> nat \<Rightarrow> int list \<Rightarrow> nat \<Rightarrow> int writer \<times> nat" where
  "simple_b_loop rnd key_pool 0 rows p = (Written rows, p)"
| "simple_b_loop rnd key_pool (Suc n) rows p =
     (case choice rnd key_pool p of
        Inl e \<Rightarrow> (Died e rows, p)
      | Inr (k, p1) \<Rightarrow> simple_b_loop rnd key_pool n (rows @ [k]) p1)"

definition generate_data_simple :: "env \<Rightarrow> script_outcome" where
  "generate_data_simple e =
     (case simple_key_pool e of
        Inl err \<Rightarrow> \<lparr>file_a = None, file_b = None\<rparr>
      | Inr (key_pool, p) \<Rightarrow>
          (if \<not> can_open_a e then \<lparr>file_a = Some OpenFailed, file_b = None\<rparr>
           else
             (case simple_a_loop (random e) key_pool (nat (row_count_arg (sys_argv e) 1)) [] p of
                (Written rows, p') \<Rightarrow>
                  \<lparr>file_a = Some (Written rows),
                   file_b = Some (if \<not> can_open_b e then OpenFailed
                      else fst (simple_b_loop (random e) key_pool
                                  (nat (row_count_arg (sys_argv e) 2)) [] p'))\<rparr>
              | (w, p') \<Rightarrow> \<lparr>file_a = Some w, file_b = None\<rparr>)))"

subsection \<open>\<^verbatim>\<open>random_data_gen_int_int.py\<close>\<close>

definition INT_MIN :: int where
  "INT_MIN = - 2147483648"

definition INT_MAX :: int where
  "INT_MAX = 2147483647"

fun random_a_loop ::
  "rng \<Rightarrow> nat \<Rightarrow> (int \<times> int) list \<Rightarrow> nat \<Rightarrow> (int \<times> int) writer \<times> nat" where
  "random_a_loop rnd 0 rows p = (Written rows, p)"
| "random_a_loop rnd (Suc n) rows p =
     (case randint rnd INT_MIN INT_MAX p of
        Inl e \<Rightarrow> (Died e rows, p)
      | Inr (k, p1) \<Rightarrow>
          (case randint rnd INT_MIN INT_MAX p1 of
             Inl e \<Rightarrow> (Died e rows, p1)
           | Inr (v, p2) \<Rightarrow> random_a_loop rnd n (rows @ [(k, v)]) p2))"

fun random_b_loop :: "rng \<Rightarrow> nat \<Rightarrow> int list \<Rightarrow> nat \<Rightarrow> int writer \<times> nat" where
  "random_b_loop rnd 0 rows p = (Written rows, p)"
| "random_b_loop rnd (Suc n) rows p =
     (case randint rnd INT_MIN INT_MAX p of
        Inl e \<Rightarrow> (Died e rows, p)
      | Inr (k, p1) \<Rightarrow> random_b_loop rnd n (rows @ [k]) p1)"

definition generate_data_random :: "env \<Rightarrow> script_outcome" where
  "generate_data_random e =
     (if \<not> can_open_a e then \<lparr>file_a = Some OpenFailed, file_b = None\<rparr>
      else
        (case random_a_loop (random e) (nat (row_count_arg (sys_argv e) 1)) [] 0 of
           (Written rows, p') \<Rightarrow>
             \<lparr>file_a = Some (Written rows),
              file_b = Some (if \<not> can_open_b e then OpenFailed
                 else fst (random_b_loop (random e) (nat (row_count_arg (sys_argv e) 2)) [] p'))\<rparr>
         | (w, p') \<Rightarrow> \<lparr>file_a = Some w, file_b = None\<rparr>))"

section \<open>Notions used in the statements\<close>

text \<open>All keys of a list lie in the closed range \<open>[0, key_range_max]\<close>.\<close>

definition in_range :: "int \<Rightarrow> int list \<Rightarrow> bool" where
  "in_range key_range_max ks = (\<forall>k\<in>set ks. 0 \<le> k \<and> k \<le> key_range_max)"

text \<open>
  A random source is fair when, from every position on, every residue of every modulus
  is still to come. On a fair source the sampling loop meets every value of its range
  again and again, so it cannot wait for a new key for ever.
\<close>

definition fair :: "rng \<Rightarrow> bool" where
  "fair rnd = (\<forall>p n v. v < n \<longrightarrow> (\<exists>i\<ge>p. rnd i mod n = v))"

text \<open>The source whose \<open>i\<close>-th raw draw is \<open>d + i\<close>, and the one that starts at 0.\<close>

definition counting_from :: "nat \<Rightarrow> rng" where
  "counting_from d i = d + i"

definition counting :: rng where
  "counting i = i"

section \<open>Properties\<close>

subsection \<open>The random primitives\<close>

lemma randint_Inr:
  "a \<le> b \<Longrightarrow> \<exists>k. randint rnd a b p = Inr (k, Suc p) \<and> a \<le> k \<and> k \<le> b"
proof -
  assume ab: "a \<le> b"
  have "int (rnd p mod nat (b - a + 1)) < int (nat (b - a + 1))"
    using ab by (intro iffD2[OF of_nat_less_iff] mod_less_divisor) simp
  then show ?thesis using ab by (simp add: randint_def)
qed

lemma randint_Inl: "b < a \<Longrightarrow> randint rnd a b p = Inl ValueError"
  by (simp add: randint_def)

lemma randint_cases:
  "randint rnd a b p = Inr (k, p') \<Longrightarrow> a \<le> k \<and> k \<le> b \<and> p' = Suc p"
  using randint_Inr[of a b rnd p] by (cases "a \<le> b") (auto simp: randint_def)

lemma choice_Inr:
  "xs \<noteq> [] \<Longrightarrow> \<exists>k. choice rnd xs p = Inr (k, Suc p) \<and> k \<in> set xs"
  by (simp add: choice_def)

lemma draw_duplicates_Inr:
  "ukl \<noteq> [] \<Longrightarrow>
   \<exists>ks. draw_duplicates rnd ukl n p = Inr (ks, p + n) \<and> length ks = n \<and> set ks \<subseteq> set ukl"
proof (induction n arbitrary: p)
  case 0
  then show ?case by simp
next
  case (Suc n)
  from choice_Inr[OF Suc.prems, of rnd p]
  obtain k where k: "choice rnd ukl p = Inr (k, Suc p)" "k \<in> set ukl" by blast
  from Suc.IH[OF Suc.prems, of "Suc p"]
  obtain ks where ks: "draw_duplicates rnd ukl n (Suc p) = Inr (ks, Suc p + n)"
    "length ks = n" "set ks \<subseteq> set ukl" by blast
  show ?case using k ks by simp
qed

lemma shuffle_loop_mset:
  "\<forall>i\<in>set is. i < length x \<Longrightarrow>
   mset (fst (shuffle_loop rnd is x p)) = mset x \<and> snd (shuffle_loop rnd is x p) = p + length is"
proof (induction "is" arbitrary: x p)
  case Nil
  then show ?case by simp
next
  case (Cons i "is")
  let ?j = "rnd p mod (i + 1)"
  let ?x' = "x[i := x ! ?j, ?j := x ! i]"
  have i: "i < length x" using Cons.prems by simp
  have "?j < i + 1" by simp
  then have j: "?j < length x" using i by linarith
  have m: "mset ?x' = mset x" using i j by (simp add: mset_swap)
  have "\<forall>k\<in>set is. k < length ?x'" using Cons.prems by simp
  from Cons.IH[OF this, of "Suc p"] m show ?case by (simp add: Let_def)
qed

lemma shuffle_mset:
  "mset (fst (shuffle rnd x p)) = mset x"
  unfolding shuffle_def by (rule shuffle_loop_mset[THEN conjunct1]) auto

lemma fill_exit:
  "\<not> int (length ks) < m \<Longrightarrow> fill_unique_key_set rnd m krm ks p = Some (Inr (ks, p))"
  by (subst fill_unique_key_set.simps) simp

lemma fill_step:
  assumes "int (length ks) < m" "0 \<le> krm"
  shows "\<exists>k. 0 \<le> k \<and> k \<le> krm \<and> k = int (rnd p mod nat (krm + 1)) \<and>
     fill_unique_key_set rnd m krm ks p =
     fill_unique_key_set rnd m krm (if k \<in> set ks then ks else ks @ [k]) (Suc p)"
proof -
  have r: "randint rnd 0 krm p = Inr (int (rnd p mod nat (krm + 1)), Suc p)"
    using assms by (simp add: randint_def)
  from randint_cases[OF r] have "0 \<le> int (rnd p mod nat (krm + 1)) \<and> int (rnd p mod nat (krm + 1)) \<le> krm" by simp
  then show ?thesis
    using assms r by (subst fill_unique_key_set.simps) simp
qed

lemma fill_safe_aux:
  assumes "fill_unique_key_set rnd m krm ks p = Some y"
  shows "0 \<le> krm \<longrightarrow> distinct ks \<longrightarrow> in_range krm ks \<longrightarrow> int (length ks) \<le> max 0 m \<longrightarrow>
    (\<exists>ks' p'. y = Inr (ks', p') \<and> distinct ks' \<and> in_range krm ks' \<and>
       int (length ks') = max 0 m \<and> p \<le> p')"
proof (rule fill_unique_key_set.raw_induct[where P = "\<lambda>rnd m krm ks p y.
    0 \<le> krm \<longrightarrow> distinct ks \<longrightarrow> in_range krm ks \<longrightarrow> int (length ks) \<le> max 0 m \<longrightarrow>
    (\<exists>ks' p'. y = Inr (ks', p') \<and> distinct ks' \<and> in_range krm ks' \<and>
       int (length ks') = max 0 m \<and> p \<le> p')", OF _ assms], goal_cases)
  case (1 fill rnd m krm ks p y)
  note IH = 1(1) and body = 1(2)
  show ?case
  proof (intro impI)
    assume krm: "0 \<le> krm" and dist: "distinct ks" and rng: "in_range krm ks"
      and len: "int (length ks) \<le> max 0 m"
    show "\<exists>ks' p'. y = Inr (ks', p') \<and> distinct ks' \<and> in_range krm ks' \<and>
       int (length ks') = max 0 m \<and> p \<le> p'"
    proof (cases "int (length ks) < m")
      case False
      with body dist rng len show ?thesis by auto
    next
      case True
      let ?k = "int (rnd p mod nat (krm + 1))"
      let ?ks = "if ?k \<in> set ks then ks else ks @ [?k]"
      have r: "randint rnd 0 krm p = Inr (?k, Suc p)"
        using krm by (simp add: randint_def)
      from randint_cases[OF r] have kr: "0 \<le> ?k \<and> ?k \<le> krm" by simp
      have rec: "fill rnd m krm ?ks (Suc p) = Some y"
        using body True r by simp
      have d: "distinct ?ks" using dist by simp
      have ir: "in_range krm ?ks" using rng kr by (simp add: in_range_def)
      have l: "int (length ?ks) \<le> max 0 m" using True by simp
      from IH[OF rec] krm d ir l obtain ks' p' where
        "y = Inr (ks', p')" "distinct ks'" "in_range krm ks'"
        "int (length ks') = max 0 m" "Suc p \<le> p'" by blast
      then show ?thesis by (intro exI[of _ ks'] exI[of _ p']) simp
    qed
  qed
qed

lemma fill_safe:
  "fill_unique_key_set rnd m krm ks p = Some y \<Longrightarrow>
   0 \<le> krm \<Longrightarrow> distinct ks \<Longrightarrow> in_range krm ks \<Longrightarrow> int (length ks) \<le> max 0 m \<Longrightarrow>
    \<exists>ks' p'. y = Inr (ks', p') \<and> distinct ks' \<and> in_range krm ks' \<and>
       int (length ks') = max 0 m \<and> p \<le> p'"
  using fill_safe_aux by blast

lemma fill_negative_range:
  "krm < 0 \<Longrightarrow> fill_unique_key_set rnd m krm ks p =
     Some (if int (length ks) < m then Inl ValueError else Inr (ks, p))"
  by (subst fill_unique_key_set.simps) (simp add: randint_def)

lemma fresh_value:
  assumes "distinct ks" "in_range krm ks" "int (length ks) < krm + 1"
  shows "\<exists>v. 0 \<le> v \<and> v \<le> krm \<and> v \<notin> set ks"
proof (rule ccontr)
  assume "\<not> ?thesis"
  then have "{0..krm} \<subseteq> set ks" by auto
  then have "card {0..krm} \<le> card (set ks)" by (intro card_mono) auto
  then show False using assms by (simp add: distinct_card)
qed

lemma fill_terminates:
  assumes f: "fair rnd" and krm: "0 \<le> krm" and m: "m \<le> krm + 1"
  shows "distinct ks \<Longrightarrow> in_range krm ks \<Longrightarrow> \<exists>y. fill_unique_key_set rnd m krm ks p = Some y"
proof (induction "nat m - length ks" arbitrary: ks p rule: less_induct)
  case less
  show ?case
  proof (cases "int (length ks) < m")
    case False
    then show ?thesis by (simp add: fill_exit)
  next
    case True
    then have "int (length ks) < krm + 1" using m by simp
    from fresh_value[OF less.prems this]
    obtain v where v: "0 \<le> v" "v \<le> krm" "v \<notin> set ks" by blast
    have "nat v < nat (krm + 1)" using v by simp
    with f obtain i where i: "p \<le> i" "rnd i mod nat (krm + 1) = nat v"
      unfolding fair_def by blast
    have fresh: "\<exists>y. fill_unique_key_set rnd m krm (ks @ [k]) q = Some y"
      if "k \<notin> set ks" "0 \<le> k" "k \<le> krm" for k q
    proof (rule less.hyps)
      show "nat m - length (ks @ [k]) < nat m - length ks" using True by simp
      show "distinct (ks @ [k])" using that less.prems by simp
      show "in_range krm (ks @ [k])" using that less.prems by (simp add: in_range_def)
    qed
    have "\<exists>y. fill_unique_key_set rnd m krm ks q = Some y" if "q + d = i" for d q
      using that
    proof (induction d arbitrary: q)
      case 0
      from fill_step[OF True krm, of rnd q] 0 i v fresh show ?case by auto
    next
      case (Suc d)
      from fill_step[OF True krm, of rnd q] obtain k where
        k: "0 \<le> k" "k \<le> krm"
        "fill_unique_key_set rnd m krm ks q =
         fill_unique_key_set rnd m krm (if k \<in> set ks then ks else ks @ [k]) (Suc q)"
        by blast
      show ?case
      proof (cases "k \<in> set ks")
        case True
        with k Suc.IH[of "Suc q"] Suc.prems show ?thesis by simp
      next
        case False
        with k fresh[of k "Suc q"] show ?thesis by simp
      qed
    qed
    from this[of p "i - p"] i show ?thesis by simp
  qed
qed

lemma fair_counting: "fair counting"
  unfolding fair_def counting_def
proof (intro allI impI)
  fix p n v :: nat
  assume "v < n"
  then have "(p * n + v) mod n = v" by simp
  moreover have "p \<le> p * n + v" using \<open>v < n\<close> by (cases n) auto
  ultimately show "\<exists>i\<ge>p. i mod n = v" by blast
qed

lemma trunc_unit:
  assumes "0 \<le> N" "0 \<le> u" "u \<le> 1"
  shows "trunc (of_int N * u) = \<lfloor>of_int N * u\<rfloor>" "0 \<le> trunc (of_int N * u)" "trunc (of_int N * u) \<le> N"
proof -
  have nn: "0 \<le> (of_int N :: rat) * u" using assms by simp
  then show t: "trunc (of_int N * u) = \<lfloor>of_int N * u\<rfloor>" by (simp add: trunc_def)
  show "0 \<le> trunc (of_int N * u)" using nn t by simp
  have "(of_int N :: rat) * u \<le> of_int N * 1" using assms by (intro mult_left_mono) simp_all
  then have "\<lfloor>of_int N * u\<rfloor> \<le> \<lfloor>(of_int N :: rat)\<rfloor>" by (intro floor_mono) simp
  then show "trunc (of_int N * u) \<le> N" using t by simp
qed

lemma trunc_nonpositive:
  assumes "N \<le> 0" "0 \<le> u"
  shows "trunc (of_int N * u) \<le> 0"
proof -
  have "(of_int N :: rat) * u \<le> 0" using assms by (simp add: mult_le_0_iff)
  then show ?thesis by (auto simp: trunc_def ceiling_le_zero)
qed

lemma build_key_pool_nonpositive:
  assumes "N \<le> 0" "0 \<le> u"
  shows "build_key_pool rnd N u p = Some (NoRows p)"
proof -
  have "\<not> int (length ([]::int list)) < trunc (of_int N * u)"
    using trunc_nonpositive[OF assms] by simp
  from fill_exit[OF this] show ?thesis
    using assms by (simp add: build_key_pool_def)
qed

lemma build_key_pool_after_fill:
  assumes N: "0 < N" and u: "0 \<le> u" "u \<le> 1"
    and fill: "fill_unique_key_set rnd (trunc (of_int N * u)) (N * 2) [] p = Some y"
  shows "\<exists>kp p'. build_key_pool rnd N u p = Some (Pool kp p') \<and>
      distinct (unique_key_list kp) \<and> in_range (2 * N) (unique_key_list kp) \<and>
      int (length (unique_key_list kp)) = max 1 \<lfloor>of_int N * u\<rfloor> \<and>
      int (length (duplicates kp)) = N - \<lfloor>of_int N * u\<rfloor> \<and>
      set (duplicates kp) \<subseteq> set (unique_key_list kp) \<and>
      unshuffled kp = unique_key_list kp @ duplicates kp \<and>
      mset (final_key_pool kp) = mset (unshuffled kp) \<and>
      keys_for kp = take (nat N) (final_key_pool kp) \<and> p \<le> p'"
proof -
  let ?m = "trunc (of_int N * u)"
  have N0: "0 \<le> N" using N by simp
  note t = trunc_unit[OF N0 u]
  have "\<exists>ks p1. y = Inr (ks, p1) \<and> distinct ks \<and> in_range (N * 2) ks \<and>
       int (length ks) = max 0 ?m \<and> p \<le> p1"
    using fill N t(2) by (intro fill_safe[of rnd ?m "N * 2" "[]" p y]) (simp_all add: in_range_def)
  then obtain ks p1 where y: "y = Inr (ks, p1)" and ks: "distinct ks" "in_range (N * 2) ks"
    "int (length ks) = ?m" "p \<le> p1" using t(2) by auto
  define ukl where "ukl = (if ks = [] then [int (rnd p1 mod nat (N * 2 + 1))] else ks)"
  define p2 where "p2 = (if ks = [] then Suc p1 else p1)"
  have forced: "(if ks = [] then
                  (case randint rnd 0 (N * 2) p1 of Inl e \<Rightarrow> Inl e | Inr (k, p2) \<Rightarrow> Inr ([k], p2))
                else Inr (ks, p1)) = Inr (ukl, p2)"
    using N by (simp add: ukl_def p2_def randint_def)
  have ukl_ne: "ukl \<noteq> []" by (simp add: ukl_def)
  have "0 \<le> int (rnd p1 mod nat (N * 2 + 1)) \<and> int (rnd p1 mod nat (N * 2 + 1)) \<le> N * 2"
    using randint_Inr[of 0 "N * 2" rnd p1] N by (simp add: randint_def)
  then have ukl: "distinct ukl" "in_range (2 * N) ukl"
    using ks by (simp_all add: ukl_def in_range_def mult.commute)
  have ukl_len: "int (length ukl) = max 1 \<lfloor>of_int N * u\<rfloor>"
  proof (cases "ks = []")
    case True
    then show ?thesis using ks(3) t(1) by (simp add: ukl_def)
  next
    case False
    then have "0 < length ks" by simp
    then have "1 \<le> \<lfloor>of_int N * u\<rfloor>" using ks(3) t(1) by linarith
    then show ?thesis using False ks(3) t(1) by (simp add: ukl_def)
  qed
  from draw_duplicates_Inr[OF ukl_ne, of rnd "nat (N - ?m)" p2]
  obtain dups where dups: "draw_duplicates rnd ukl (nat (N - ?m)) p2 = Inr (dups, p2 + nat (N - ?m))"
    "length dups = nat (N - ?m)" "set dups \<subseteq> set ukl" by blast
  obtain pool p4 where sh: "shuffle rnd (ukl @ dups) (p2 + nat (N - ?m)) = (pool, p4)"
    by (cases "shuffle rnd (ukl @ dups) (p2 + nat (N - ?m))")
  have pool: "mset pool = mset (ukl @ dups)"
    using shuffle_mset[of rnd "ukl @ dups" "p2 + nat (N - ?m)"] sh by simp
  have p4: "p4 = p2 + nat (N - ?m) + length (rev [1..<length (ukl @ dups)])"
    using shuffle_loop_mset[of "rev [1..<length (ukl @ dups)]" "ukl @ dups" rnd "p2 + nat (N - ?m)"] sh
    by (auto simp: shuffle_def)
  have res: "build_key_pool rnd N u p =
      Some (Pool \<lparr>unique_key_list = ukl, duplicates = dups, unshuffled = ukl @ dups,
                  final_key_pool = pool, keys_for = slice_to pool N\<rparr> p4)"
    unfolding build_key_pool_def Let_def fill y using N forced dups(1) sh
    by (simp del: draw_duplicates.simps)
  have "p \<le> p4" using ks(4) p4 by (simp add: p2_def)
  moreover have "int (length dups) = N - \<lfloor>of_int N * u\<rfloor>" using dups(2) t by simp
  ultimately show ?thesis
    using res ukl ukl_len dups(3) pool N by (simp add: slice_to_def)
qed

lemma build_key_pool_positive:
  assumes "0 < N" "0 \<le> u" "u \<le> 1" "build_key_pool rnd N u p = Some out"
  shows "\<exists>kp p'. out = Pool kp p' \<and>
      distinct (unique_key_list kp) \<and> in_range (2 * N) (unique_key_list kp) \<and>
      int (length (unique_key_list kp)) = max 1 \<lfloor>of_int N * u\<rfloor> \<and>
      int (length (duplicates kp)) = N - \<lfloor>of_int N * u\<rfloor> \<and>
      set (duplicates kp) \<subseteq> set (unique_key_list kp) \<and>
      unshuffled kp = unique_key_list kp @ duplicates kp \<and>
      mset (final_key_pool kp) = mset (unshuffled kp) \<and>
      keys_for kp = take (nat N) (final_key_pool kp) \<and> p \<le> p'"
proof (cases "fill_unique_key_set rnd (trunc (of_int N * u)) (N * 2) [] p")
  case None
  then have "build_key_pool rnd N u p = None" by (simp add: build_key_pool_def)
  with assms show ?thesis by simp
next
  case (Some y)
  from build_key_pool_after_fill[OF assms(1-3) Some] assms(4) show ?thesis by auto
qed

lemma build_key_pool_terminates:
  assumes "fair rnd" "0 \<le> u" "u \<le> 1"
  shows "\<exists>out. build_key_pool rnd N u p = Some out"
proof (cases "0 < N")
  case False
  then show ?thesis using build_key_pool_nonpositive[of N u rnd p] assms by simp
next
  case True
  then have N0: "0 \<le> N" by simp
  have "\<exists>y. fill_unique_key_set rnd (trunc (of_int N * u)) (N * 2) [] p = Some y"
    using trunc_unit(3)[OF N0 assms(2,3)] True
    by (intro fill_terminates[OF assms(1)]) (simp_all add: in_range_def)
  then obtain y where "fill_unique_key_set rnd (trunc (of_int N * u)) (N * 2) [] p = Some y" ..
  from build_key_pool_after_fill[OF True assms(2,3) this] show ?thesis by blast
qed

subsection \<open>The keys handed to a writer\<close>

lemma keys_for_facts:
  assumes N: "0 < N" and u: "0 \<le> u" "u \<le> 1"
    and b: "build_key_pool rnd N u p = Some (Pool kp p')"
  shows "length (keys_for kp) = nat N"
    and "set (keys_for kp) = set (unique_key_list kp)"
    and "int (card (set (keys_for kp))) = max 1 \<lfloor>of_int N * u\<rfloor>"
    and "in_range (2 * N) (keys_for kp)"
    and "u = 1 \<Longrightarrow> distinct (keys_for kp)"
proof -
  let ?m = "\<lfloor>of_int N * u\<rfloor>"
  from build_key_pool_positive[OF N u b]
  have d: "distinct (unique_key_list kp)" and r: "in_range (2 * N) (unique_key_list kp)"
    and lu: "int (length (unique_key_list kp)) = max 1 ?m"
    and ld: "int (length (duplicates kp)) = N - ?m"
    and sd: "set (duplicates kp) \<subseteq> set (unique_key_list kp)"
    and un: "unshuffled kp = unique_key_list kp @ duplicates kp"
    and ms: "mset (final_key_pool kp) = mset (unshuffled kp)"
    and kf: "keys_for kp = take (nat N) (final_key_pool kp)" by auto
  have m0: "0 \<le> ?m" using N u by simp
  have lf: "length (final_key_pool kp) = length (unique_key_list kp) + length (duplicates kp)"
    using ms un by (metis length_append size_mset)
  have sf: "set (final_key_pool kp) = set (unique_key_list kp)"
    using ms un sd by (metis mset_eq_setD set_append sup.absorb1)
  have ge: "nat N \<le> length (final_key_pool kp)" using lf lu ld m0 by linarith
  show len: "length (keys_for kp) = nat N" using kf ge by simp
  show set_eq: "set (keys_for kp) = set (unique_key_list kp)"
  proof (cases "1 \<le> ?m")
    case True
    then have "length (final_key_pool kp) = nat N" using lf lu ld by linarith
    then show ?thesis using kf sf by simp
  next
    case False
    then have "length (unique_key_list kp) = 1" using lu by simp
    then obtain k where k: "unique_key_list kp = [k]"
      by (cases "unique_key_list kp") auto
    have "keys_for kp \<noteq> []" using len N by auto
    moreover have "set (keys_for kp) \<subseteq> {k}" using kf sf k by (metis empty_set list.simps(15) set_take_subset)
    ultimately show ?thesis using k by (cases "keys_for kp") auto
  qed
  have "card (set (keys_for kp)) = length (unique_key_list kp)"
    using set_eq d by (simp add: distinct_card)
  then show "int (card (set (keys_for kp))) = max 1 ?m" using lu by simp
  show "in_range (2 * N) (keys_for kp)" using r set_eq by (simp add: in_range_def)
  show "distinct (keys_for kp)" if "u = 1"
  proof -
    have "?m = N" using that by simp
    then have "length (duplicates kp) = 0" and "length (final_key_pool kp) = nat N"
      using ld lf lu N by simp_all
    then have "mset (keys_for kp) = mset (unique_key_list kp)" using kf ms un by simp
    then show ?thesis using d by (metis mset_eq_imp_distinct_iff)
  qed
qed

subsection \<open>The writers\<close>

lemma file_a_loop_Written:
  "\<forall>i\<in>set is. i < length keys \<Longrightarrow>
   \<exists>new. file_a_loop rnd keys is rows p = (Written (rows @ new), p + length is) \<and>
         map fst new = map ((!) keys) is \<and> (\<forall>v\<in>snd ` set new. 1 \<le> v \<and> v \<le> 100)"
proof (induction "is" arbitrary: rows p)
  case Nil
  then show ?case by simp
next
  case (Cons i "is")
  from randint_Inr[of 1 100 rnd p] obtain v where
    v: "randint rnd 1 100 p = Inr (v, Suc p)" "1 \<le> v" "v \<le> 100" by auto
  have "\<forall>j\<in>set is. j < length keys" using Cons.prems by simp
  from Cons.IH[OF this, of "rows @ [(keys ! i, v)]" "Suc p"] obtain new where
    new: "file_a_loop rnd keys is (rows @ [(keys ! i, v)]) (Suc p) =
            (Written ((rows @ [(keys ! i, v)]) @ new), Suc p + length is)"
      "map fst new = map ((!) keys) is" "\<forall>v\<in>snd ` set new. 1 \<le> v \<and> v \<le> 100" by blast
  show ?case
    using Cons.prems v new by (intro exI[of _ "(keys ! i, v) # new"]) simp
qed

lemma file_a_loop_no_IndexError:
  "\<forall>i\<in>set is. i < length keys \<Longrightarrow> fst (file_a_loop rnd keys is rows p) \<noteq> Died err rows'"
  using file_a_loop_Written[of "is" keys rnd rows p] by auto

lemma generate_file_a_Written:
  assumes "length keys = nat num_rows"
  shows "\<exists>rows. generate_file_a True rnd num_rows keys p = (Written rows, p + nat num_rows) \<and>
     map fst rows = keys \<and> (\<forall>v\<in>snd ` set rows. 1 \<le> v \<and> v \<le> 100)"
proof -
  have "\<forall>i\<in>set [0..<nat num_rows]. i < length keys" using assms by simp
  moreover have "map ((!) keys) [0..<nat num_rows] = keys"
    using map_nth[of keys] assms by simp
  ultimately show ?thesis
    using file_a_loop_Written[of "[0..<nat num_rows]" keys rnd "[]" p]
    by (auto simp: generate_file_a_def)
qed

lemma file_b_loop_Written:
  "\<forall>i\<in>set is. i < length keys \<Longrightarrow> file_b_loop keys is rows = Written (rows @ map ((!) keys) is)"
  by (induction "is" arbitrary: rows) simp_all

lemma generate_file_b_Written:
  assumes "length keys = nat num_rows"
  shows "generate_file_b True num_rows keys = Written keys"
proof -
  have "\<forall>i\<in>set [0..<nat num_rows]. i < length keys" using assms by simp
  moreover have "map ((!) keys) [0..<nat num_rows] = keys"
    using map_nth[of keys] assms by simp
  ultimately show ?thesis
    using file_b_loop_Written[of "[0..<nat num_rows]" keys "[]"]
    by (simp add: generate_file_b_def)
qed

lemma generate_file_a_cases:
  assumes "length keys = nat num_rows"
  shows "fst (generate_file_a c rnd num_rows keys p) = OpenFailed \<or>
    (\<exists>rows. fst (generate_file_a c rnd num_rows keys p) = Written rows \<and> map fst rows = keys)"
  using generate_file_a_Written[OF assms, of rnd p]
  by (cases c) (auto simp: generate_file_a_def)

lemma generate_file_b_cases:
  assumes "length keys = nat num_rows"
  shows "generate_file_b c num_rows keys = OpenFailed \<or> generate_file_b c num_rows keys = Written keys"
  using generate_file_b_Written[OF assms]
  by (cases c) (auto simp: generate_file_b_def)

subsection \<open>The command line of \<^verbatim>\<open>data_gen.py\<close>\<close>

lemma parse_args_unit:
  "parse_args argv = Inr (na, nb, u) \<Longrightarrow> 0 \<le> u \<and> u \<le> 1"
  by (auto simp: parse_args_def split: sum.splits py_float.splits if_splits)


subsection \<open>From the command line to the threads\<close>

lemma prepare_Ready:
  assumes "prepare e = Some (Ready na ka nb kb p)"
  shows "\<exists>u pa pb p1. parse_args (sys_argv e) = Inr (na, nb, u) \<and> 0 < na \<and> 0 < nb \<and>
     build_key_pool (random e) na u 0 = Some (Pool pa p1) \<and>
     build_key_pool (random e) nb u p1 = Some (Pool pb p) \<and>
     ka = keys_for pa \<and> kb = keys_for pb"
proof -
  from assms obtain u pa pb p1 where
    pa: "parse_args (sys_argv e) = Inr (na, nb, u)"
    and a: "build_key_pool (random e) na u 0 = Some (Pool pa p1)"
    and b: "build_key_pool (random e) nb u p1 = Some (Pool pb p)"
    and k: "ka = keys_for pa" "kb = keys_for pb"
    by (auto simp: prepare_def split: sum.splits option.splits pool_outcome.splits)
  from parse_args_unit[OF pa] have u: "0 \<le> u" "u \<le> 1" by simp_all
  have "0 < na" using build_key_pool_nonpositive[of na u "random e" 0] a u by (cases "0 < na") auto
  moreover have "0 < nb" using build_key_pool_nonpositive[of nb u "random e" p1] b u by (cases "0 < nb") auto
  ultimately show ?thesis using pa a b k by blast
qed

lemma prepare_positive:
  assumes pa: "parse_args (sys_argv e) = Inr (na, nb, u)" and pos: "0 < na" "0 < nb"
    and pr: "prepare e = Some out"
  shows "\<exists>ka kb p. out = Ready na ka nb kb p"
proof -
  from parse_args_unit[OF pa] have u: "0 \<le> u" "u \<le> 1" by simp_all
  from pr pa obtain oa where oa: "build_key_pool (random e) na u 0 = Some oa"
    by (auto simp: prepare_def split: option.splits)
  from build_key_pool_positive[OF pos(1) u oa] obtain kpa p1 where a: "oa = Pool kpa p1" by blast
  from pr pa oa a obtain ob where ob: "build_key_pool (random e) nb u p1 = Some ob"
    by (auto simp: prepare_def split: option.splits)
  from build_key_pool_positive[OF pos(2) u ob] obtain kpb p2 where b: "ob = Pool kpb p2" by blast
  from pr pa oa a ob b show ?thesis by (auto simp: prepare_def)
qed

lemma prepare_terminates:
  assumes "fair (random e)"
  shows "\<exists>out. prepare e = Some out"
proof (cases "parse_args (sys_argv e)")
  case (Inl err)
  then show ?thesis by (simp add: prepare_def)
next
  case (Inr t)
  then obtain na nb u where pa: "parse_args (sys_argv e) = Inr (na, nb, u)" by (cases t) auto
  from parse_args_unit[OF pa] have u: "0 \<le> u" "u \<le> 1" by simp_all
  from build_key_pool_terminates[OF assms u, of na 0] obtain oa where
    oa: "build_key_pool (random e) na u 0 = Some oa" by blast
  show ?thesis
  proof (cases oa)
    case (Pool kpa p1)
    from build_key_pool_terminates[OF assms u, of nb p1] obtain ob where
      ob: "build_key_pool (random e) nb u p1 = Some ob" by blast
    show ?thesis using pa oa Pool ob by (cases ob) (simp_all add: prepare_def)
  qed (use pa oa in \<open>simp_all add: prepare_def\<close>)
qed

lemma build_key_pool_Pool:
  assumes "build_key_pool rnd N u p = Some (Pool kp p')"
  shows "\<exists>ks p1. fill_unique_key_set rnd (trunc (of_int N * u)) (N * 2) [] p = Some (Inr (ks, p1)) \<and>
     (ks \<noteq> [] \<and> unique_key_list kp = ks \<or>
      ks = [] \<and> (\<exists>k p2. randint rnd 0 (N * 2) p1 = Inr (k, p2) \<and> unique_key_list kp = [k]))"
  using assms
  by (auto simp: build_key_pool_def Let_def split: option.splits sum.splits prod.splits if_splits)

lemma unique_key_list_range:
  assumes "build_key_pool rnd N u p = Some (Pool kp p')"
  shows "in_range (2 * N) (unique_key_list kp)"
proof -
  from build_key_pool_Pool[OF assms] obtain ks p1 where
    fill: "fill_unique_key_set rnd (trunc (of_int N * u)) (N * 2) [] p = Some (Inr (ks, p1))"
    and c: "ks \<noteq> [] \<and> unique_key_list kp = ks \<or>
      ks = [] \<and> (\<exists>k p2. randint rnd 0 (N * 2) p1 = Inr (k, p2) \<and> unique_key_list kp = [k])"
    by blast
  from c show ?thesis
  proof
    assume ks: "ks \<noteq> [] \<and> unique_key_list kp = ks"
    have "0 \<le> N * 2"
    proof (rule ccontr)
      assume "\<not> 0 \<le> N * 2"
      then have "N * 2 < 0" by simp
      from fill_negative_range[OF this, of rnd "trunc (of_int N * u)" "[]" p] fill ks
      show False by (auto split: if_splits)
    qed
    from fill_safe[OF fill this] have "in_range (N * 2) ks" by (auto simp: in_range_def)
    then show ?thesis using ks by (simp add: mult.commute)
  next
    assume "ks = [] \<and> (\<exists>k p2. randint rnd 0 (N * 2) p1 = Inr (k, p2) \<and> unique_key_list kp = [k])"
    then obtain k p2 where "randint rnd 0 (N * 2) p1 = Inr (k, p2)" "unique_key_list kp = [k]" by blast
    with randint_cases[of rnd 0 "N * 2" p1 k p2] show ?thesis by (simp add: in_range_def)
  qed
qed

subsection \<open>Claims about the key pool of one table\<close>







text \<open>
  Claim C5 says that every key of the unique pool is strictly below \<open>2 * row_count\<close>.
  \<^verbatim>\<open>randint(0, key_range_max)\<close> includes its upper end: with one row, \<open>u = 1\<close> and a first
  raw draw of 2, the pool is \<open>[2]\<close>.
\<close>

theorem pool_key_half_open_counterexample:
  "build_key_pool (counting_from 2) 1 1 0 =
     Some (Pool \<lparr>unique_key_list = [2], duplicates = [], unshuffled = [2],
                 final_key_pool = [2], keys_for = [2]\<rparr> 1) \<and>
   2 \<in> set [2 :: int] \<and> \<not> (2 :: int) < 2 * 1"
proof -
  have "build_key_pool (counting_from 2) 1 1 0 =
     Some (Pool \<lparr>unique_key_list = [2], duplicates = [], unshuffled = [2],
                 final_key_pool = [2], keys_for = [2]\<rparr> 1)"
    by code_simp
  then show ?thesis by simp
qed

text \<open>
  Claim C5, amended. Every key of the unique pool lies in the closed range
  \<open>[0, 2 * row_count]\<close>, for every row count, every fraction and every random source.
\<close>

theorem pool_key_closed_range:
  assumes "build_key_pool rnd N u p = Some (Pool kp p')"
  shows "\<forall>k\<in>set (unique_key_list kp). 0 \<le> k \<and> k \<le> 2 * N"
  using unique_key_list_range[OF assms] by (simp add: in_range_def)

theorem pool_key_closed_range_witness:
  "build_key_pool (counting_from 2) 1 1 0 =
     Some (Pool \<lparr>unique_key_list = [2], duplicates = [], unshuffled = [2],
                 final_key_pool = [2], keys_for = [2]\<rparr> 1) \<and>
   set [2 :: int] \<subseteq> {0..2 * 1}"
proof -
  have a: "build_key_pool (counting_from 2) 1 1 0 =
     Some (Pool \<lparr>unique_key_list = [2], duplicates = [], unshuffled = [2],
                 final_key_pool = [2], keys_for = [2]\<rparr> 1)"
    by code_simp
  from pool_key_closed_range[OF a] a show ?thesis by auto
qed

subsection \<open>Claims about a run of \<^verbatim>\<open>data_gen.py\<close>\<close>

lemma generate_data_Stopped:
  "prepare e = Some (Stopped r p) \<Longrightarrow>
   generate_data e = Some \<lparr>report = r, thread_a = None, thread_b = None, draws = p\<rparr>"
  by (simp add: generate_data_def)

lemma generate_data_Ready:
  "prepare e = Some (Ready na ka nb kb p) \<Longrightarrow>
   generate_data e =
     Some \<lparr>report = AllTasksCompleted,
           thread_a = Some (fst (generate_file_a (can_open_a e) (random e) na ka p)),
           thread_b = Some (generate_file_b (can_open_b e) nb kb),
           draws = snd (generate_file_a (can_open_a e) (random e) na ka p)\<rparr>"
  by (simp add: generate_data_def split: prod.splits)

lemma generate_data_None: "prepare e = None \<Longrightarrow> generate_data e = None"
  by (simp add: generate_data_def)

lemma prepare_keys:
  assumes "prepare e = Some (Ready na ka nb kb p)"
  shows "length ka = nat na" "length kb = nat nb" "0 < na" "0 < nb"
    "in_range (2 * na) ka" "in_range (2 * nb) kb"
proof -
  from prepare_Ready[OF assms] obtain u pa pb p1 where
    pa: "parse_args (sys_argv e) = Inr (na, nb, u)" and pos: "0 < na" "0 < nb"
    and a: "build_key_pool (random e) na u 0 = Some (Pool pa p1)"
    and b: "build_key_pool (random e) nb u p1 = Some (Pool pb p)"
    and k: "ka = keys_for pa" "kb = keys_for pb" by blast
  from parse_args_unit[OF pa] have u: "0 \<le> u" "u \<le> 1" by simp_all
  note fa = keys_for_facts[OF pos(1) u a] and fb = keys_for_facts[OF pos(2) u b]
  show "length ka = nat na" "length kb = nat nb" "0 < na" "0 < nb"
    "in_range (2 * na) ka" "in_range (2 * nb) kb"
    using fa(1,4) fb(1,4) k pos by simp_all
qed

text \<open>
  Claim C6. Every key written to \<^verbatim>\<open>A.txt\<close> lies in \<open>[0, 2 * num_rows_a]\<close> and every key
  written to \<^verbatim>\<open>B.txt\<close> lies in \<open>[0, 2 * num_rows_b]\<close>.
\<close>

theorem written_keys_in_range:
  assumes "parse_args (sys_argv e) = Inr (na, nb, u)" and "generate_data e = Some r"
  shows "(\<forall>rows. a_txt r = Some rows \<longrightarrow> (\<forall>row\<in>set rows. 0 \<le> fst row \<and> fst row \<le> 2 * na)) \<and>
    (\<forall>rows. b_txt r = Some rows \<longrightarrow> (\<forall>k\<in>set rows. 0 \<le> k \<and> k \<le> 2 * nb))"
proof (cases "prepare e")
  case None
  with assms(2) show ?thesis by (simp add: generate_data_None)
next
  case (Some out)
  show ?thesis
  proof (cases out)
    case (Stopped rep p)
    with Some assms(2) generate_data_Stopped[of e rep p] show ?thesis
      by (auto simp: a_txt_def b_txt_def)
  next
    case (Ready na' ka nb' kb p)
    with Some have pr: "prepare e = Some (Ready na' ka nb' kb p)" by simp
    from prepare_Ready[OF pr] assms(1) have eq: "na' = na" "nb' = nb" by auto
    note k = prepare_keys[OF pr]
    from generate_data_Ready[OF pr] assms(2) have
      ta: "thread_a r = Some (fst (generate_file_a (can_open_a e) (random e) na' ka p))"
      and tb: "thread_b r = Some (generate_file_b (can_open_b e) nb' kb)" by auto
    have A: "\<forall>row\<in>set rows. 0 \<le> fst row \<and> fst row \<le> 2 * na" if "a_txt r = Some rows" for rows
    proof -
      from generate_file_a_cases[OF k(1), of "can_open_a e" "random e" p] that ta
      have "map fst rows = ka" by (auto simp: a_txt_def)
      then have "fst ` set rows = set ka" by (metis set_map)
      with k(5) eq show ?thesis by (auto simp: in_range_def)
    qed
    have B: "\<forall>k\<in>set rows. 0 \<le> k \<and> k \<le> 2 * nb" if "b_txt r = Some rows" for rows
    proof -
      from generate_file_b_cases[OF k(2), of "can_open_b e"] that tb
      have "rows = kb" by (auto simp: b_txt_def)
      with k(6) eq show ?thesis by (auto simp: in_range_def)
    qed
    from A B show ?thesis by blast
  qed
qed

theorem written_keys_in_range_witness:
  "generate_data \<lparr>sys_argv = [''data_gen.py'', ''5'', ''3'', ''0.5''], random = counting,
                  can_open_a = True, can_open_b = True\<rparr> =
     Some \<lparr>report = AllTasksCompleted,
           thread_a = Some (Written [(1, 15), (0, 16), (1, 17), (0, 18), (0, 19)]),
           thread_b = Some (Written [2, 2, 2]), draws = 19\<rparr> \<and>
   fst ` set [(1, 15), (0, 16), (1, 17), (0, 18), (0, 19 :: int)] \<subseteq> {0 :: int..2 * 5} \<and>
   set [2, 2, 2 :: int] \<subseteq> {0..2 * 3}"
proof -
  let ?e = "\<lparr>sys_argv = [''data_gen.py'', ''5'', ''3'', ''0.5''], random = counting,
             can_open_a = True, can_open_b = True\<rparr>"
  have p: "parse_args (sys_argv ?e) = Inr (5, 3, 1 / 2)" by code_simp
  have g: "generate_data ?e =
     Some \<lparr>report = AllTasksCompleted,
           thread_a = Some (Written [(1, 15), (0, 16), (1, 17), (0, 18), (0, 19)]),
           thread_b = Some (Written [2, 2, 2]), draws = 19\<rparr>" by code_simp
  from written_keys_in_range[OF p g] g show ?thesis
    by (simp add: a_txt_def b_txt_def)
qed



text \<open>
  Claim C8. When both row counts are positive, the key list handed to each writer has
  exactly that table's row count as its length, so every index of \<^verbatim>\<open>range(num_rows)\<close> is
  in bounds and neither writer ends by an exception. On a fair random source the run
  reaches the writers.
\<close>

theorem writers_index_in_bounds:
  assumes "parse_args (sys_argv e) = Inr (na, nb, u)" and "0 < na" and "0 < nb"
  shows "(fair (random e) \<longrightarrow> prepare e \<noteq> None \<and> generate_data e \<noteq> None) \<and>
    (\<forall>out. prepare e = Some out \<longrightarrow>
       (\<exists>ka kb p. out = Ready na ka nb kb p \<and> int (length ka) = na \<and> int (length kb) = nb \<and>
          (\<forall>i\<in>set [0..<nat na]. i < length ka) \<and> (\<forall>i\<in>set [0..<nat nb]. i < length kb))) \<and>
    (\<forall>r. generate_data e = Some r \<longrightarrow>
       (\<exists>wa wb. thread_a r = Some wa \<and> thread_b r = Some wb \<and>
          (\<forall>err rows. wa \<noteq> Died err rows) \<and> (\<forall>err rows. wb \<noteq> Died err rows)))"
proof (intro conjI impI allI)
  assume f: "fair (random e)"
  from prepare_terminates[OF f] obtain out where out: "prepare e = Some out" by blast
  then show "prepare e \<noteq> None" by simp
  from prepare_positive[OF assms out] obtain ka kb p where "out = Ready na ka nb kb p" by blast
  with out generate_data_Ready[of e na ka nb kb p] show "generate_data e \<noteq> None" by simp
next
  fix out assume out: "prepare e = Some out"
  from prepare_positive[OF assms out] obtain ka kb p where r: "out = Ready na ka nb kb p" by blast
  note k = prepare_keys[OF out[unfolded r]]
  show "\<exists>ka kb p. out = Ready na ka nb kb p \<and> int (length ka) = na \<and> int (length kb) = nb \<and>
          (\<forall>i\<in>set [0..<nat na]. i < length ka) \<and> (\<forall>i\<in>set [0..<nat nb]. i < length kb)"
    using r k(1-4) by (intro exI[of _ ka] exI[of _ kb] exI[of _ p]) simp
next
  fix r assume g: "generate_data e = Some r"
  then obtain out where out: "prepare e = Some out"
    by (cases "prepare e") (simp_all add: generate_data_None)
  from prepare_positive[OF assms out] obtain ka kb p where rd: "prepare e = Some (Ready na ka nb kb p)"
    using out by blast
  note k = prepare_keys[OF rd]
  from generate_data_Ready[OF rd] g have
    ta: "thread_a r = Some (fst (generate_file_a (can_open_a e) (random e) na ka p))"
    and tb: "thread_b r = Some (generate_file_b (can_open_b e) nb kb)" by auto
  from generate_file_a_cases[OF k(1), of "can_open_a e" "random e" p]
  have "\<forall>err rows. fst (generate_file_a (can_open_a e) (random e) na ka p) \<noteq> Died err rows" by auto
  moreover from generate_file_b_cases[OF k(2), of "can_open_b e"]
  have "\<forall>err rows. generate_file_b (can_open_b e) nb kb \<noteq> Died err rows" by auto
  ultimately show "\<exists>wa wb. thread_a r = Some wa \<and> thread_b r = Some wb \<and>
          (\<forall>err rows. wa \<noteq> Died err rows) \<and> (\<forall>err rows. wb \<noteq> Died err rows)"
    using ta tb by simp
qed

theorem writers_index_in_bounds_witness:
  "prepare \<lparr>sys_argv = [''data_gen.py'', ''5'', ''3'', ''0.5''], random = counting,
            can_open_a = True, can_open_b = True\<rparr> =
     Some (Ready 5 [1, 0, 1, 0, 0] 3 [2, 2, 2] 14) \<and>
   int (length [1, 0, 1, 0, 0 :: int]) = 5 \<and> int (length [2, 2, 2 :: int]) = 3 \<and>
   generate_data \<lparr>sys_argv = [''data_gen.py'', ''5'', ''3'', ''0.5''], random = counting,
                  can_open_a = True, can_open_b = True\<rparr> \<noteq> None"
proof -
  let ?e = "\<lparr>sys_argv = [''data_gen.py'', ''5'', ''3'', ''0.5''], random = counting,
             can_open_a = True, can_open_b = True\<rparr>"
  have p: "parse_args (sys_argv ?e) = Inr (5, 3, 1 / 2)" by code_simp
  have r: "prepare ?e = Some (Ready 5 [1, 0, 1, 0, 0] 3 [2, 2, 2] 14)" by code_simp
  have f: "fair (random ?e)" using fair_counting by simp
  have h: "(0::int) < 5" "(0::int) < 3" by simp_all
  from writers_index_in_bounds[OF p h] f r show ?thesis by simp
qed

text \<open>
  With both row counts positive and both files writable, a run that returns has written
  exactly \<open>num_rows_a\<close> rows to \<^verbatim>\<open>A.txt\<close> and \<open>num_rows_b\<close> rows to \<^verbatim>\<open>B.txt\<close>.
\<close>

lemma generate_data_row_counts:
  assumes "parse_args (sys_argv e) = Inr (na, nb, u)" and "0 < na" and "0 < nb"
    and "can_open_a e" and "can_open_b e" and "generate_data e = Some r"
  shows "\<exists>rows_a rows_b. thread_a r = Some (Written rows_a) \<and> thread_b r = Some (Written rows_b) \<and>
     int (length rows_a) = na \<and> int (length rows_b) = nb \<and> report r = AllTasksCompleted"
proof -
  from assms(6) obtain out where out: "prepare e = Some out"
    by (cases "prepare e") (simp_all add: generate_data_None)
  from prepare_positive[OF assms(1-3) out] obtain ka kb p where rd: "prepare e = Some (Ready na ka nb kb p)"
    using out by blast
  note k = prepare_keys[OF rd]
  from generate_file_a_Written[OF k(1), of "random e" p] obtain rows where
    rows: "generate_file_a True (random e) na ka p = (Written rows, p + nat na)" "map fst rows = ka"
    by blast
  from rows(2) have "length rows = length ka" by (metis length_map)
  with generate_data_Ready[OF rd] assms(4-6) rows(1) generate_file_b_Written[OF k(2)] k(1-4)
  show ?thesis by auto
qed

subsection \<open>A zero row count\<close>

lemma zero_rows_a:
  assumes "parse_args (sys_argv e) = Inr (na, nb, u)" and "na \<le> 0"
  shows "generate_data e =
    Some \<lparr>report = NoRowsToGenerate, thread_a = None, thread_b = None, draws = 0\<rparr>"
proof -
  from parse_args_unit[OF assms(1)] have "0 \<le> u" by simp
  from build_key_pool_nonpositive[OF assms(2) this, of "random e" 0] assms(1)
  show ?thesis by (simp add: generate_data_def prepare_def)
qed

lemma zero_rows_b:
  assumes "parse_args (sys_argv e) = Inr (na, nb, u)" and "0 < na" and "nb \<le> 0"
    and "generate_data e = Some r"
  shows "report r = NoRowsToGenerate \<and> thread_a r = None \<and> thread_b r = None"
proof -
  from parse_args_unit[OF assms(1)] have u: "0 \<le> u" "u \<le> 1" by simp_all
  from assms(4) assms(1) obtain oa where oa: "build_key_pool (random e) na u 0 = Some oa"
    by (auto simp: generate_data_def prepare_def split: option.splits)
  from build_key_pool_positive[OF assms(2) u oa] obtain kp p1 where "oa = Pool kp p1" by blast
  with oa assms(1,4) build_key_pool_nonpositive[OF assms(3) u(1), of "random e" p1]
  show ?thesis by (auto simp: generate_data_def prepare_def)
qed

text \<open>
  Claim C1 says that a row count of 0 for one table gives that table an empty file and
  leaves the other table's generation untouched. With 0 rows for table A and 5 for table
  B the run prints \<^verbatim>\<open>No rows to generate.\<close> and returns before any random draw: no thread
  is started, \<^verbatim>\<open>A.txt\<close> is not created and table B is not generated.
\<close>

theorem zero_rows_for_a_stops_everything:
  "generate_data \<lparr>sys_argv = [''data_gen.py'', ''0'', ''5'', ''0.5''], random = counting,
                  can_open_a = True, can_open_b = True\<rparr> =
     Some \<lparr>report = NoRowsToGenerate, thread_a = None, thread_b = None, draws = 0\<rparr>"
  by code_simp

text \<open>
  Claim C2 says that the file of a table has exactly \<open>row_count\<close> lines for every row
  count \<open>\<ge> 0\<close>. With 5 rows for table A and 0 for table B the pool of table A is built
  (9 draws) and then dropped: the run returns at table B and \<^verbatim>\<open>A.txt\<close> gets no line.
\<close>

theorem zero_rows_for_b_leaves_a_unwritten:
  "generate_data \<lparr>sys_argv = [''data_gen.py'', ''5'', ''0'', ''0.5''], random = counting,
                  can_open_a = True, can_open_b = True\<rparr> =
     Some \<lparr>report = NoRowsToGenerate, thread_a = None, thread_b = None, draws = 9\<rparr> \<and>
   a_txt \<lparr>report = NoRowsToGenerate, thread_a = None, thread_b = None, draws = 9\<rparr> = None"
proof -
  have "generate_data \<lparr>sys_argv = [''data_gen.py'', ''5'', ''0'', ''0.5''], random = counting,
                  can_open_a = True, can_open_b = True\<rparr> =
     Some \<lparr>report = NoRowsToGenerate, thread_a = None, thread_b = None, draws = 9\<rparr>"
    by code_simp
  then show ?thesis by (simp add: a_txt_def)
qed

subsection \<open>The simplified generators\<close>

lemma randints_Inr:
  "a \<le> b \<Longrightarrow>
   \<exists>ks. randints rnd a b n p = Inr (ks, p + n) \<and> length ks = n \<and> (\<forall>k\<in>set ks. a \<le> k \<and> k \<le> b)"
proof (induction n arbitrary: p)
  case 0
  then show ?case by simp
next
  case (Suc n)
  from randint_Inr[OF Suc.prems, of rnd p] obtain k where
    k: "randint rnd a b p = Inr (k, Suc p)" "a \<le> k" "k \<le> b" by blast
  from Suc.IH[OF Suc.prems, of "Suc p"] obtain ks where
    ks: "randints rnd a b n (Suc p) = Inr (ks, Suc p + n)" "length ks = n"
      "\<forall>k\<in>set ks. a \<le> k \<and> k \<le> b" by blast
  show ?case using k ks by simp
qed

lemma simple_key_pool_Inr:
  fixes e :: env
  defines "sz \<equiv> max 1 ((row_count_arg (sys_argv e) 1 + row_count_arg (sys_argv e) 2) div 20)"
  shows "\<exists>key_pool. simple_key_pool e = Inr (key_pool, nat sz) \<and> key_pool \<noteq> [] \<and>
     int (length key_pool) = sz \<and> (\<forall>k\<in>set key_pool. 0 \<le> k \<and> k \<le> 5 * sz)"
proof -
  have s: "1 \<le> sz" by (simp add: sz_def)
  then have "0 \<le> sz * 5" by simp
  from randints_Inr[OF this, of "random e" "nat sz" 0] obtain ks where
    ks: "randints (random e) 0 (sz * 5) (nat sz) 0 = Inr (ks, nat sz)" "length ks = nat sz"
      "\<forall>k\<in>set ks. 0 \<le> k \<and> k \<le> sz * 5" by auto
  have ne: "ks \<noteq> []" using ks(2) s by auto
  have "simple_key_pool e = Inr (ks, nat sz)"
    using ks(1) ne by (simp add: simple_key_pool_def sz_def Let_def)
  then show ?thesis using ne ks(2,3) s by (intro exI[of _ ks]) (simp add: mult.commute)
qed

lemma simple_a_loop_Written:
  "key_pool \<noteq> [] \<Longrightarrow>
   \<exists>new. simple_a_loop rnd key_pool n rows p = (Written (rows @ new), p + 2 * n) \<and>
     length new = n \<and> fst ` set new \<subseteq> set key_pool"
proof (induction n arbitrary: rows p)
  case 0
  then show ?case by simp
next
  case (Suc n)
  from choice_Inr[OF Suc.prems, of rnd p] obtain k where
    k: "choice rnd key_pool p = Inr (k, Suc p)" "k \<in> set key_pool" by blast
  from randint_Inr[of 1 100 rnd "Suc p"] obtain v where
    v: "randint rnd 1 100 (Suc p) = Inr (v, Suc (Suc p))" by auto
  from Suc.IH[OF Suc.prems, of "rows @ [(k, v)]" "Suc (Suc p)"] obtain new where
    new: "simple_a_loop rnd key_pool n (rows @ [(k, v)]) (Suc (Suc p)) =
            (Written ((rows @ [(k, v)]) @ new), Suc (Suc p) + 2 * n)"
      "length new = n" "fst ` set new \<subseteq> set key_pool" by blast
  show ?case using k v new by (intro exI[of _ "(k, v) # new"]) simp
qed

lemma simple_b_loop_Written:
  "key_pool \<noteq> [] \<Longrightarrow>
   \<exists>new. simple_b_loop rnd key_pool n rows p = (Written (rows @ new), p + n) \<and>
     length new = n \<and> set new \<subseteq> set key_pool"
proof (induction n arbitrary: rows p)
  case 0
  then show ?case by simp
next
  case (Suc n)
  from choice_Inr[OF Suc.prems, of rnd p] obtain k where
    k: "choice rnd key_pool p = Inr (k, Suc p)" "k \<in> set key_pool" by blast
  from Suc.IH[OF Suc.prems, of "rows @ [k]" "Suc p"] obtain new where
    new: "simple_b_loop rnd key_pool n (rows @ [k]) (Suc p) =
            (Written ((rows @ [k]) @ new), Suc p + n)"
      "length new = n" "set new \<subseteq> set key_pool" by blast
  show ?case using k new by (intro exI[of _ "k # new"]) simp
qed

lemma generate_data_simple_files:
  assumes "simple_key_pool e = Inr (key_pool, p)" and "key_pool \<noteq> []"
  shows "\<exists>ra rb.
     length ra = nat (row_count_arg (sys_argv e) 1) \<and> fst ` set ra \<subseteq> set key_pool \<and>
     length rb = nat (row_count_arg (sys_argv e) 2) \<and> set rb \<subseteq> set key_pool \<and>
     generate_data_simple e =
       (if \<not> can_open_a e then \<lparr>file_a = Some OpenFailed, file_b = None\<rparr>
        else \<lparr>file_a = Some (Written ra),
              file_b = Some (if \<not> can_open_b e then OpenFailed else Written rb)\<rparr>)"
proof -
  from simple_a_loop_Written[OF assms(2), of "random e" "nat (row_count_arg (sys_argv e) 1)" "[]" p]
  obtain ra where ra: "simple_a_loop (random e) key_pool (nat (row_count_arg (sys_argv e) 1)) [] p =
      (Written ra, p + 2 * nat (row_count_arg (sys_argv e) 1))"
    "length ra = nat (row_count_arg (sys_argv e) 1)" "fst ` set ra \<subseteq> set key_pool" by auto
  from simple_b_loop_Written[OF assms(2), of "random e" "nat (row_count_arg (sys_argv e) 2)" "[]"
      "p + 2 * nat (row_count_arg (sys_argv e) 1)"]
  obtain rb where rb: "simple_b_loop (random e) key_pool (nat (row_count_arg (sys_argv e) 2)) []
        (p + 2 * nat (row_count_arg (sys_argv e) 1)) =
      (Written rb, p + 2 * nat (row_count_arg (sys_argv e) 1) + nat (row_count_arg (sys_argv e) 2))"
    "length rb = nat (row_count_arg (sys_argv e) 2)" "set rb \<subseteq> set key_pool" by auto
  show ?thesis
    using assms(1) ra rb
    by (intro exI[of _ ra] exI[of _ rb]) (simp add: generate_data_simple_def)
qed

lemma random_a_loop_Written:
  "\<exists>new. random_a_loop rnd n rows p = (Written (rows @ new), p + 2 * n) \<and> length new = n"
proof (induction n arbitrary: rows p)
  case 0
  then show ?case by simp
next
  case (Suc n)
  have le: "INT_MIN \<le> INT_MAX" by (simp add: INT_MIN_def INT_MAX_def)
  from randint_Inr[OF le, of rnd p] obtain k where
    k: "randint rnd INT_MIN INT_MAX p = Inr (k, Suc p)" by blast
  from randint_Inr[OF le, of rnd "Suc p"] obtain v where
    v: "randint rnd INT_MIN INT_MAX (Suc p) = Inr (v, Suc (Suc p))" by blast
  from Suc.IH[of "rows @ [(k, v)]" "Suc (Suc p)"] obtain new where
    new: "random_a_loop rnd n (rows @ [(k, v)]) (Suc (Suc p)) =
            (Written ((rows @ [(k, v)]) @ new), Suc (Suc p) + 2 * n)" "length new = n" by blast
  show ?case using k v new by (intro exI[of _ "(k, v) # new"]) simp
qed

lemma random_b_loop_Written:
  "\<exists>new. random_b_loop rnd n rows p = (Written (rows @ new), p + n) \<and> length new = n"
proof (induction n arbitrary: rows p)
  case 0
  then show ?case by simp
next
  case (Suc n)
  have le: "INT_MIN \<le> INT_MAX" by (simp add: INT_MIN_def INT_MAX_def)
  from randint_Inr[OF le, of rnd p] obtain k where
    k: "randint rnd INT_MIN INT_MAX p = Inr (k, Suc p)" by blast
  from Suc.IH[of "rows @ [k]" "Suc p"] obtain new where
    new: "random_b_loop rnd n (rows @ [k]) (Suc p) = (Written ((rows @ [k]) @ new), Suc p + n)"
      "length new = n" by blast
  show ?case using k new by (intro exI[of _ "k # new"]) simp
qed

lemma generate_data_random_files:
  "\<exists>ra rb.
     length ra = nat (row_count_arg (sys_argv e) 1) \<and>
     length rb = nat (row_count_arg (sys_argv e) 2) \<and>
     generate_data_random e =
       (if \<not> can_open_a e then \<lparr>file_a = Some OpenFailed, file_b = None\<rparr>
        else \<lparr>file_a = Some (Written ra),
              file_b = Some (if \<not> can_open_b e then OpenFailed else Written rb)\<rparr>)"
proof -
  from random_a_loop_Written[of "random e" "nat (row_count_arg (sys_argv e) 1)" "[]" 0]
  obtain ra where ra: "random_a_loop (random e) (nat (row_count_arg (sys_argv e) 1)) [] 0 =
      (Written ra, 2 * nat (row_count_arg (sys_argv e) 1))"
    "length ra = nat (row_count_arg (sys_argv e) 1)" by auto
  from random_b_loop_Written[of "random e" "nat (row_count_arg (sys_argv e) 2)" "[]"
      "2 * nat (row_count_arg (sys_argv e) 1)"]
  obtain rb where rb: "random_b_loop (random e) (nat (row_count_arg (sys_argv e) 2)) []
        (2 * nat (row_count_arg (sys_argv e) 1)) =
      (Written rb, 2 * nat (row_count_arg (sys_argv e) 1) + nat (row_count_arg (sys_argv e) 2))"
    "length rb = nat (row_count_arg (sys_argv e) 2)" by auto
  show ?thesis
    using ra rb by (intro exI[of _ ra] exI[of _ rb]) (simp add: generate_data_random_def)
qed

text \<open>
  Claim C9. In \<^verbatim>\<open>simple_data_gen_int_int.py\<close> every key written to \<^verbatim>\<open>A.txt\<close> and to
  \<^verbatim>\<open>B.txt\<close> is an element of the one key pool, which has
  \<open>max 1 ((num_rows_a + num_rows_b) div 20)\<close> entries, each in \<open>[0, 5 * pool size]\<close>.
\<close>

theorem simple_shared_key_pool:
  "\<exists>key_pool p. simple_key_pool e = Inr (key_pool, p) \<and>
     int (length key_pool) =
       max 1 ((row_count_arg (sys_argv e) 1 + row_count_arg (sys_argv e) 2) div 20) \<and>
     (\<forall>k\<in>set key_pool. 0 \<le> k \<and>
        k \<le> 5 * max 1 ((row_count_arg (sys_argv e) 1 + row_count_arg (sys_argv e) 2) div 20)) \<and>
     (\<forall>w. file_a (generate_data_simple e) = Some w \<longrightarrow> fst ` set (rows_written w) \<subseteq> set key_pool) \<and>
     (\<forall>w. file_b (generate_data_simple e) = Some w \<longrightarrow> set (rows_written w) \<subseteq> set key_pool)"
proof -
  from simple_key_pool_Inr[of e] obtain key_pool where
    kp: "simple_key_pool e = Inr (key_pool, nat (max 1 ((row_count_arg (sys_argv e) 1 + row_count_arg (sys_argv e) 2) div 20)))"
      "key_pool \<noteq> []"
      "int (length key_pool) = max 1 ((row_count_arg (sys_argv e) 1 + row_count_arg (sys_argv e) 2) div 20)"
      "\<forall>k\<in>set key_pool. 0 \<le> k \<and>
        k \<le> 5 * max 1 ((row_count_arg (sys_argv e) 1 + row_count_arg (sys_argv e) 2) div 20)"
    by blast
  from generate_data_simple_files[OF kp(1,2)] obtain ra rb where
    f: "fst ` set ra \<subseteq> set key_pool" "set rb \<subseteq> set key_pool"
      "generate_data_simple e =
       (if \<not> can_open_a e then \<lparr>file_a = Some OpenFailed, file_b = None\<rparr>
        else \<lparr>file_a = Some (Written ra),
              file_b = Some (if \<not> can_open_b e then OpenFailed else Written rb)\<rparr>)" by blast
  have A: "\<forall>w. file_a (generate_data_simple e) = Some w \<longrightarrow> fst ` set (rows_written w) \<subseteq> set key_pool"
    using f by (auto split: if_splits)
  have B: "\<forall>w. file_b (generate_data_simple e) = Some w \<longrightarrow> set (rows_written w) \<subseteq> set key_pool"
    using f by (auto split: if_splits)
  from kp(1,3,4) A B show ?thesis by blast
qed

theorem simple_shared_key_pool_witness:
  "simple_key_pool \<lparr>sys_argv = [''simple_data_gen_int_int.py'', ''50'', ''30''], random = counting,
                    can_open_a = True, can_open_b = True\<rparr> = Inr ([0, 1, 2, 3], 4) \<and>
   int (length [0, 1, 2, 3 :: int]) = max 1 ((50 + 30) div 20) \<and>
   set [0, 1, 2, 3 :: int] \<subseteq> {0..5 * max 1 ((50 + 30) div 20)} \<and>
   file_a (generate_data_simple \<lparr>sys_argv = [''simple_data_gen_int_int.py'', ''50'', ''30''],
      random = counting, can_open_a = True, can_open_b = True\<rparr>) \<noteq> None \<and>
   fst ` set (rows_written (the (file_a (generate_data_simple
      \<lparr>sys_argv = [''simple_data_gen_int_int.py'', ''50'', ''30''], random = counting,
       can_open_a = True, can_open_b = True\<rparr>)))) \<subseteq> set [0, 1, 2, 3] \<and>
   file_b (generate_data_simple \<lparr>sys_argv = [''simple_data_gen_int_int.py'', ''50'', ''30''],
      random = counting, can_open_a = True, can_open_b = True\<rparr>) \<noteq> None \<and>
   set (rows_written (the (file_b (generate_data_simple
      \<lparr>sys_argv = [''simple_data_gen_int_int.py'', ''50'', ''30''], random = counting,
       can_open_a = True, can_open_b = True\<rparr>)))) \<subseteq> set [0, 1, 2, 3]"
proof -
  let ?e = "\<lparr>sys_argv = [''simple_data_gen_int_int.py'', ''50'', ''30''], random = counting,
             can_open_a = True, can_open_b = True\<rparr>"
  have k: "simple_key_pool ?e = Inr ([0, 1, 2, 3], 4)" by code_simp
  from generate_data_simple_files[OF k] obtain ra rb where
    g: "generate_data_simple ?e = \<lparr>file_a = Some (Written ra), file_b = Some (Written rb)\<rparr>"
    by auto
  from simple_shared_key_pool[of ?e] k g show ?thesis by auto
qed

text \<open>
  \<^verbatim>\<open>data_gen.py\<close> builds one pool per table, and the two can be disjoint: with 5 and 3
  rows, \<open>u = 1 / 2\<close> and the counting source, table A receives the keys 0 and 1 and table
  B only the key 2.
\<close>

lemma data_gen_pools_can_be_disjoint:
  "prepare \<lparr>sys_argv = [''data_gen.py'', ''5'', ''3'', ''0.5''], random = counting,
            can_open_a = True, can_open_b = True\<rparr> =
     Some (Ready 5 [1, 0, 1, 0, 0] 3 [2, 2, 2] 14) \<and>
   set [1, 0, 1, 0, 0 :: int] \<inter> set [2, 2, 2] = {}"
proof -
  have "prepare \<lparr>sys_argv = [''data_gen.py'', ''5'', ''3'', ''0.5''], random = counting,
            can_open_a = True, can_open_b = True\<rparr> =
     Some (Ready 5 [1, 0, 1, 0, 0] 3 [2, 2, 2] 14)" by code_simp
  then show ?thesis by simp
qed

text \<open>
  Claim C10. In \<^verbatim>\<open>simple_data_gen_int_int.py\<close> and \<^verbatim>\<open>random_data_gen_int_int.py\<close> a row
  count that is missing or not an integer becomes 10000, and when both files can be
  opened both are written in full, with exactly the row counts so obtained.
\<close>

theorem default_row_counts:
  "((\<exists>err. int_arg (sys_argv e) 1 = Inl err) \<longrightarrow> row_count_arg (sys_argv e) 1 = 10000) \<and>
   ((\<exists>err. int_arg (sys_argv e) 2 = Inl err) \<longrightarrow> row_count_arg (sys_argv e) 2 = 10000) \<and>
   (can_open_a e \<and> can_open_b e \<longrightarrow>
      (\<exists>ra rb. generate_data_simple e = \<lparr>file_a = Some (Written ra), file_b = Some (Written rb)\<rparr> \<and>
         length ra = nat (row_count_arg (sys_argv e) 1) \<and>
         length rb = nat (row_count_arg (sys_argv e) 2)) \<and>
      (\<exists>ra rb. generate_data_random e = \<lparr>file_a = Some (Written ra), file_b = Some (Written rb)\<rparr> \<and>
         length ra = nat (row_count_arg (sys_argv e) 1) \<and>
         length rb = nat (row_count_arg (sys_argv e) 2)))"
proof (intro conjI impI)
  assume "\<exists>err. int_arg (sys_argv e) 1 = Inl err"
  then show "row_count_arg (sys_argv e) 1 = 10000" by (auto simp: row_count_arg_def)
next
  assume "\<exists>err. int_arg (sys_argv e) 2 = Inl err"
  then show "row_count_arg (sys_argv e) 2 = 10000" by (auto simp: row_count_arg_def)
next
  assume o: "can_open_a e \<and> can_open_b e"
  from simple_key_pool_Inr[of e] obtain key_pool p where
    "simple_key_pool e = Inr (key_pool, p)" "key_pool \<noteq> []" by blast
  from generate_data_simple_files[OF this] o
  show "\<exists>ra rb. generate_data_simple e = \<lparr>file_a = Some (Written ra), file_b = Some (Written rb)\<rparr> \<and>
         length ra = nat (row_count_arg (sys_argv e) 1) \<and>
         length rb = nat (row_count_arg (sys_argv e) 2)" by auto
next
  assume o: "can_open_a e \<and> can_open_b e"
  from generate_data_random_files[of e] o
  show "\<exists>ra rb. generate_data_random e = \<lparr>file_a = Some (Written ra), file_b = Some (Written rb)\<rparr> \<and>
         length ra = nat (row_count_arg (sys_argv e) 1) \<and>
         length rb = nat (row_count_arg (sys_argv e) 2)" by auto
qed

theorem default_row_counts_witness:
  "int_arg [''gen.py'', ''many''] 1 = Inl ValueError \<and>
   int_arg [''gen.py'', ''many''] 2 = Inl IndexError \<and>
   map_option (\<lambda>w. length (rows_written w))
     (file_a (generate_data_simple \<lparr>sys_argv = [''gen.py'', ''many''], random = counting,
        can_open_a = True, can_open_b = True\<rparr>)) = Some 10000 \<and>
   map_option (\<lambda>w. length (rows_written w))
     (file_b (generate_data_simple \<lparr>sys_argv = [''gen.py'', ''many''], random = counting,
        can_open_a = True, can_open_b = True\<rparr>)) = Some 10000 \<and>
   map_option (\<lambda>w. length (rows_written w))
     (file_a (generate_data_random \<lparr>sys_argv = [''gen.py'', ''many''], random = counting,
        can_open_a = True, can_open_b = True\<rparr>)) = Some 10000 \<and>
   map_option (\<lambda>w. length (rows_written w))
     (file_b (generate_data_random \<lparr>sys_argv = [''gen.py'', ''many''], random = counting,
        can_open_a = True, can_open_b = True\<rparr>)) = Some 10000"
proof -
  let ?e = "\<lparr>sys_argv = [''gen.py'', ''many''], random = counting,
             can_open_a = True, can_open_b = True\<rparr>"
  have a: "int_arg (sys_argv ?e) 1 = Inl ValueError" by code_simp
  have b: "int_arg (sys_argv ?e) 2 = Inl IndexError" by code_simp
  have o: "can_open_a ?e \<and> can_open_b ?e" by simp
  from default_row_counts[of ?e] a b o
  have r: "row_count_arg (sys_argv ?e) 1 = 10000" "row_count_arg (sys_argv ?e) 2 = 10000"
    and s: "\<exists>ra rb. generate_data_simple ?e = \<lparr>file_a = Some (Written ra), file_b = Some (Written rb)\<rparr> \<and>
         length ra = nat (row_count_arg (sys_argv ?e) 1) \<and>
         length rb = nat (row_count_arg (sys_argv ?e) 2)"
    and t: "\<exists>ra rb. generate_data_random ?e = \<lparr>file_a = Some (Written ra), file_b = Some (Written rb)\<rparr> \<and>
         length ra = nat (row_count_arg (sys_argv ?e) 1) \<and>
         length rb = nat (row_count_arg (sys_argv ?e) 2)"
    by blast+
  from s r obtain ra rb where
    "generate_data_simple ?e = \<lparr>file_a = Some (Written ra), file_b = Some (Written rb)\<rparr>"
    "length ra = 10000" "length rb = 10000" by auto
  moreover from t r obtain ra' rb' where
    "generate_data_random ?e = \<lparr>file_a = Some (Written ra'), file_b = Some (Written rb')\<rparr>"
    "length ra' = 10000" "length rb' = 10000" by auto
  ultimately show ?thesis using a b by simp
qed

end
